theory Spec2Isabelle
  imports Main "HOL-Library.Multiset"
begin

section \<open>The algorithms of \<open>demo/python_algorithms.py\<close>\<close>

text \<open>
  The four routines are pure functions of their arguments. Python lists are HOL lists,
  Python integers are \<open>int\<close>, a \<open>dict\<close> is a partial map (an association list where
  its keys are iterated), and every exception the interpreter could raise at a subscript,
  a \<open>min\<close> or a \<open>remove\<close> is a value \<open>Inl e\<close> of the result type. The recursion of
  \<open>merge_sort\<close> is about \<open>log\<^sub>2 (len arr)\<close> frames deep and stays far below the
  interpreter's recursion limit on every list that fits in memory; the recursion of
  \<open>fib\<close> is \<open>n\<close> frames deep, so its model carries the stack that is left and raises
  \<open>RecursionError\<close> when it runs out.
\<close>

datatype error = KeyError | IndexError | ValueError | RecursionError

subsection \<open>\<open>merge_sort\<close> and \<open>merge\<close>\<close>

text \<open>
  The elements are compared with Python's \<open><=\<close>, which is whatever the elements' type
  defines; the model takes it as the parameter \<open>le\<close>, so that elements that compare
  equal need not be identical. The \<open>while\<close> loop of \<open>merge\<close> is \<open>merge_loop\<close> on
  its three variables \<open>i\<close>, \<open>j\<close> and \<open>result\<close>; the two \<open>extend\<close> calls follow it.
\<close>

function merge_loop ::
  "('a \<Rightarrow> 'a \<Rightarrow> bool) \<Rightarrow> 'a list \<Rightarrow> 'a list \<Rightarrow> nat \<Rightarrow> nat \<Rightarrow> 'a list \<Rightarrow> nat \<times> nat \<times> 'a list" where
  "merge_loop le left right i j result =
     (if i < length left \<and> j < length right then
        (if le (left ! i) (right ! j)
         then merge_loop le left right (i + 1) j (result @ [left ! i])
         else merge_loop le left right i (j + 1) (result @ [right ! j]))
      else (i, j, result))"
  by pat_completeness auto
termination
  by (relation "measure (\<lambda>(le, left, right, i, j, result). (length left - i) + (length right - j))") auto

definition merge :: "('a \<Rightarrow> 'a \<Rightarrow> bool) \<Rightarrow> 'a list \<Rightarrow> 'a list \<Rightarrow> 'a list" where
  "merge le left right =
     (case merge_loop le left right 0 0 [] of
        (i, j, result) \<Rightarrow> result @ drop i left @ drop j right)"

function merge_sort :: "('a \<Rightarrow> 'a \<Rightarrow> bool) \<Rightarrow> 'a list \<Rightarrow> 'a list" where
  "merge_sort le arr =
     (if length arr \<le> 1 then arr
      else (let mid = length arr div 2;
                left = merge_sort le (take mid arr);
                right = merge_sort le (drop mid arr)
            in merge le left right))"
  by pat_completeness auto
termination
  by (relation "measure (\<lambda>(le, arr). length arr)") auto

subsection \<open>\<open>binary_search\<close>\<close>

text \<open>
  \<open>arr[mid]\<close> is Python's subscript: a negative index counts from the end, and an index
  out of range raises \<open>IndexError\<close>. \<open>left\<close>, \<open>right\<close> and \<open>mid\<close> are integers
  (\<open>right\<close> starts at \<open>-1\<close> on the empty list), and \<open>//\<close> is floor division.
\<close>

definition list_getitem :: "'a list \<Rightarrow> int \<Rightarrow> error + 'a" where
  "list_getitem arr i =
     (let n = int (length arr); k = (if i < 0 then i + n else i)
      in if 0 \<le> k \<and> k < n then Inr (arr ! nat k) else Inl IndexError)"

function binary_search_loop :: "'a::linorder list \<Rightarrow> 'a \<Rightarrow> int \<Rightarrow> int \<Rightarrow> error + int" where
  "binary_search_loop arr target left right =
     (if left \<le> right then
        (let mid = (left + right) div 2 in
         case list_getitem arr mid of
           Inl e \<Rightarrow> Inl e
         | Inr mid_value \<Rightarrow>
             if mid_value = target then Inr mid
             else if mid_value < target then
               (if mid < int (length arr) - 1
                then binary_search_loop arr target (mid + 1) right
                else Inr (- 1))
             else
               (if mid > 0
                then binary_search_loop arr target left (mid - 1)
                else Inr (- 1)))
      else Inr (- 1))"
  by pat_completeness auto
termination
  by (relation "measure (\<lambda>(arr, target, left, right). nat (right - left + 1))") auto

definition binary_search :: "'a::linorder list \<Rightarrow> 'a \<Rightarrow> error + int" where
  "binary_search arr target = binary_search_loop arr target 0 (int (length arr) - 1)"

text \<open>
  The plain two-branch search that the specification compares \<open>binary_search\<close> with: the
  same loop without the two boundary tests.
\<close>

function binary_search_simple_loop :: "'a::linorder list \<Rightarrow> 'a \<Rightarrow> int \<Rightarrow> int \<Rightarrow> error + int" where
  "binary_search_simple_loop arr target left right =
     (if left \<le> right then
        (let mid = (left + right) div 2 in
         case list_getitem arr mid of
           Inl e \<Rightarrow> Inl e
         | Inr mid_value \<Rightarrow>
             if mid_value = target then Inr mid
             else if mid_value < target
             then binary_search_simple_loop arr target (mid + 1) right
             else binary_search_simple_loop arr target left (mid - 1))
      else Inr (- 1))"
  by pat_completeness auto
termination
  by (relation "measure (\<lambda>(arr, target, left, right). nat (right - left + 1))") auto

definition binary_search_simple :: "'a::linorder list \<Rightarrow> 'a \<Rightarrow> error + int" where
  "binary_search_simple arr target = binary_search_simple_loop arr target 0 (int (length arr) - 1)"

subsection \<open>\<open>dijkstra_shortest_path\<close>\<close>

text \<open>
  A distance is an integer or \<open>float('inf')\<close>; \<open><\<close> and \<open>+\<close> on distances are Python's,
  with infinity above every integer and absorbing in sums.
\<close>

datatype dist = Fin int | PInf

instantiation dist :: linorder
begin

fun less_eq_dist :: "dist \<Rightarrow> dist \<Rightarrow> bool" where
  "less_eq_dist (Fin a) (Fin b) = (a \<le> b)"
| "less_eq_dist (Fin a) PInf = True"
| "less_eq_dist PInf (Fin b) = False"
| "less_eq_dist PInf PInf = True"

fun less_dist :: "dist \<Rightarrow> dist \<Rightarrow> bool" where
  "less_dist (Fin a) (Fin b) = (a < b)"
| "less_dist (Fin a) PInf = True"
| "less_dist PInf (Fin b) = False"
| "less_dist PInf PInf = False"

instance
proof
  fix x y z :: dist
  show "(x < y) = (x \<le> y \<and> \<not> y \<le> x)"
    by (cases x; cases y) auto
  show "x \<le> x"
    by (cases x) auto
  show "x \<le> y \<Longrightarrow> y \<le> z \<Longrightarrow> x \<le> z"
    by (cases x; cases y; cases z) auto
  show "x \<le> y \<Longrightarrow> y \<le> x \<Longrightarrow> x = y"
    by (cases x; cases y) auto
  show "x \<le> y \<or> y \<le> x"
    by (cases x; cases y) auto
qed

end

fun dist_add :: "dist \<Rightarrow> int \<Rightarrow> dist" where
  "dist_add (Fin a) w = Fin (a + w)"
| "dist_add PInf w = PInf"

text \<open>
  The graph is a \<open>dict\<close> from node to a \<open>dict\<close> from neighbour to weight. Both are
  iterated, so both are association lists; \<open>graph[current]\<close> is \<open>map_of graph current\<close>.
  \<open>unvisited\<close> is a set, and \<open>min\<close> returns the first least element in the set's
  iteration order, which is the order of the hash table and not that of the \<open>dict\<close>. The
  model keeps the set as a list in its iteration order and takes the association list of
  the graph in that same order: lookups in a \<open>dict\<close> do not depend on the order of its
  items, and nothing else in the routine depends on the order of the graph's keys, so a
  statement about every association list is a statement about every iteration order of
  the set. Removing an element leaves the order of the others as it is.
\<close>

type_synonym 'n graph = "('n \<times> ('n \<times> int) list) list"
type_synonym 'n distances = "'n \<rightharpoonup> dist"

abbreviation graph_keys :: "'n graph \<Rightarrow> 'n list" where
  "graph_keys graph \<equiv> map fst graph"

definition dict_getitem :: "('k \<rightharpoonup> 'v) \<Rightarrow> 'k \<Rightarrow> error + 'v" where
  "dict_getitem d k = (case d k of None \<Rightarrow> Inl KeyError | Some v \<Rightarrow> Inr v)"

text \<open>\<open>min(unvisited, key=lambda node: distances[node])\<close>: a scan that keeps the first least key.\<close>

fun min_scan :: "'n distances \<Rightarrow> 'n \<Rightarrow> dist \<Rightarrow> 'n list \<Rightarrow> error + 'n" where
  "min_scan distances best best_key [] = Inr best"
| "min_scan distances best best_key (node # rest) =
     (case dict_getitem distances node of
        Inl e \<Rightarrow> Inl e
      | Inr k \<Rightarrow>
          if k < best_key then min_scan distances node k rest
          else min_scan distances best best_key rest)"

fun min_by_distance :: "'n distances \<Rightarrow> 'n list \<Rightarrow> error + 'n" where
  "min_by_distance distances [] = Inl ValueError"
| "min_by_distance distances (node # rest) =
     (case dict_getitem distances node of
        Inl e \<Rightarrow> Inl e
      | Inr k \<Rightarrow> min_scan distances node k rest)"

text \<open>The \<open>for neighbor, weight in graph[current].items()\<close> loop.\<close>

fun relax_neighbors ::
  "'n list \<Rightarrow> 'n \<Rightarrow> ('n \<times> int) list \<Rightarrow> 'n distances \<Rightarrow> error + 'n distances" where
  "relax_neighbors unvisited current [] distances = Inr distances"
| "relax_neighbors unvisited current ((neighbor, weight) # items) distances =
     (if neighbor \<in> set unvisited then
        (case dict_getitem distances current of
           Inl e \<Rightarrow> Inl e
         | Inr dc \<Rightarrow>
             (let new_distance = dist_add dc weight in
              case dict_getitem distances neighbor of
                Inl e \<Rightarrow> Inl e
              | Inr dn \<Rightarrow>
                  if new_distance < dn
                  then relax_neighbors unvisited current items (distances(neighbor \<mapsto> new_distance))
                  else relax_neighbors unvisited current items distances))
      else relax_neighbors unvisited current items distances)"

text \<open>The \<open>while unvisited\<close> loop; \<open>break\<close> returns the table as it stands.\<close>

function dijkstra_loop :: "'n graph \<Rightarrow> 'n list \<Rightarrow> 'n distances \<Rightarrow> error + 'n distances" where
  "dijkstra_loop graph unvisited distances =
     (if unvisited = [] then Inr distances
      else
        (case min_by_distance distances unvisited of
           Inl e \<Rightarrow> Inl e
         | Inr current \<Rightarrow>
             (case dict_getitem distances current of
                Inl e \<Rightarrow> Inl e
              | Inr dc \<Rightarrow>
                  if dc = PInf then Inr distances
                  else
                    (case dict_getitem (map_of graph) current of
                       Inl e \<Rightarrow> Inl e
                     | Inr items \<Rightarrow>
                         (case relax_neighbors unvisited current items distances of
                            Inl e \<Rightarrow> Inl e
                          | Inr distances' \<Rightarrow>
                              if current \<in> set unvisited
                              then dijkstra_loop graph (removeAll current unvisited) distances'
                              else Inl KeyError)))))"
  by pat_completeness auto
termination
  by (relation "measure (\<lambda>(graph, unvisited, distances). length unvisited)")
    (auto simp: length_removeAll_less)

definition dijkstra_shortest_path :: "'n graph \<Rightarrow> 'n \<Rightarrow> error + 'n distances" where
  "dijkstra_shortest_path graph start =
     (let distances = map_of (map (\<lambda>node. (node, PInf)) (graph_keys graph));
          distances = distances(start \<mapsto> Fin 0);
          unvisited = remdups (graph_keys graph)
      in dijkstra_loop graph unvisited distances)"

subsection \<open>\<open>fibonacci_dynamic\<close>\<close>

text \<open>
  The inner \<open>fib\<close> reads and writes the \<open>memo\<close> of the enclosing call; the model passes
  the table in and returns it with the result. Nothing is memoised before the first
  descent \<open>fib(n)\<close>, \<open>fib(n - 1)\<close>, ... reaches the base case, so that descent nests one
  frame per call. \<open>room\<close> is the number of frames the interpreter still allows below the
  frame of the current call of \<open>fib\<close>: a recursive call with no room left raises
  \<open>RecursionError\<close>, which propagates through every caller. For \<open>fibonacci_dynamic\<close>,
  \<open>room\<close> is what is left below its outer call \<open>fib(n)\<close>: at the default limit of 1000
  frames, called from the top level of a module, that is 997.
\<close>

type_synonym memo = "int \<rightharpoonup> int"

function fib :: "nat \<Rightarrow> int \<Rightarrow> memo \<Rightarrow> error + int \<times> memo" where
  "fib room num memo =
     (case memo num of
        Some v \<Rightarrow> Inr (v, memo)
      | None \<Rightarrow>
          if num \<le> 1 then Inr (num, memo)
          else
            (case room of
               0 \<Rightarrow> Inl RecursionError
             | Suc room' \<Rightarrow>
                 (case fib room' (num - 1) memo of
                    Inl e \<Rightarrow> Inl e
                  | Inr (a, memo1) \<Rightarrow>
                      (case fib room' (num - 2) memo1 of
                         Inl e \<Rightarrow> Inl e
                       | Inr (b, memo2) \<Rightarrow>
                           (let result = a + b in Inr (result, memo2(num \<mapsto> result)))))))"
  by pat_completeness auto
termination
  by (relation "measure (\<lambda>(room, num, memo). room)") auto

definition fibonacci_dynamic :: "nat \<Rightarrow> int \<Rightarrow> error + int" where
  "fibonacci_dynamic room n =
     (case fib room n Map.empty of Inl e \<Rightarrow> Inl e | Inr (r, memo) \<Rightarrow> Inr r)"

section \<open>Notions of the specification\<close>

text \<open>A comparison \<open>le\<close> that is total and transitive: a total order up to equivalence.\<close>

definition total_preorder :: "('a \<Rightarrow> 'a \<Rightarrow> bool) \<Rightarrow> bool" where
  "total_preorder le = ((\<forall>x y. le x y \<or> le y x) \<and> (\<forall>x y z. le x y \<longrightarrow> le y z \<longrightarrow> le x z))"

text \<open>The naive recursive Fibonacci reference of the specification.\<close>

fun fib_spec :: "nat \<Rightarrow> int" where
  "fib_spec 0 = 0"
| "fib_spec (Suc 0) = 1"
| "fib_spec (Suc (Suc k)) = fib_spec (Suc k) + fib_spec k"

text \<open>
  A path from \<open>u\<close> is the list of its steps \<open>(v, w)\<close>: the node stepped to and the weight
  of the edge taken, which must be an item of the adjacency of the node stepped from.
\<close>

fun is_path :: "'n graph \<Rightarrow> 'n \<Rightarrow> ('n \<times> int) list \<Rightarrow> bool" where
  "is_path graph u [] = True"
| "is_path graph u ((v, w) # p) =
     (case map_of graph u of
        None \<Rightarrow> False
      | Some items \<Rightarrow> (v, w) \<in> set items \<and> is_path graph v p)"

fun path_end :: "'n \<Rightarrow> ('n \<times> int) list \<Rightarrow> 'n" where
  "path_end u [] = u"
| "path_end u ((v, w) # p) = path_end v p"

definition path_weight :: "('n \<times> int) list \<Rightarrow> int" where
  "path_weight p = sum_list (map snd p)"

definition nonneg_weights :: "'n graph \<Rightarrow> bool" where
  "nonneg_weights graph = list_all (\<lambda>(u, items). list_all (\<lambda>(v, w). 0 \<le> w) items) graph"

definition example_graph :: "string graph" where
  "example_graph =
     [(''A'', [(''B'', 1), (''C'', 4)]),
      (''B'', [(''C'', 2), (''D'', 5)]),
      (''C'', [(''D'', 1)]),
      (''D'', [])]"

section \<open>Auxiliary notions of the proofs\<close>

text \<open>The list merge that the index loop of \<open>merge\<close> computes.\<close>

fun merge_lists :: "('a \<Rightarrow> 'a \<Rightarrow> bool) \<Rightarrow> 'a list \<Rightarrow> 'a list \<Rightarrow> 'a list" where
  "merge_lists le [] ys = ys"
| "merge_lists le xs [] = xs"
| "merge_lists le (x # xs) (y # ys) =
     (if le x y then x # merge_lists le xs (y # ys) else y # merge_lists le (x # xs) ys)"

text \<open>Every memo entry is a Fibonacci number at an index from 2 on.\<close>

definition memo_ok :: "memo \<Rightarrow> bool" where
  "memo_ok m = (\<forall>k v. m k = Some v \<longrightarrow> 2 \<le> k \<and> v = fib_spec (nat k))"

text \<open>The distance of a node in a table, infinite where the table has no entry.\<close>

definition dv :: "'n distances \<Rightarrow> 'n \<Rightarrow> dist" where
  "dv d v = (case d v of None \<Rightarrow> PInf | Some x \<Rightarrow> x)"

definition reaches :: "'n graph \<Rightarrow> 'n \<Rightarrow> 'n \<Rightarrow> int \<Rightarrow> bool" where
  "reaches graph s v x = (\<exists>p. is_path graph s p \<and> path_end s p = v \<and> path_weight p = x)"

text \<open>
  The loop invariant, with \<open>U\<close> the unvisited nodes: the table's keys are the graph's keys
  and the start; the start is at most 0; a finite entry is the weight of some path; every
  edge out of a visited node is relaxed; and a visited node is no farther than an
  unvisited one.
\<close>

definition dijkstra_inv :: "'n graph \<Rightarrow> 'n \<Rightarrow> 'n set \<Rightarrow> 'n distances \<Rightarrow> bool" where
  "dijkstra_inv graph s U d =
     (U \<subseteq> dom (map_of graph) \<and>
      dom d = insert s (dom (map_of graph)) \<and>
      dv d s \<le> Fin 0 \<and>
      (\<forall>v x. d v = Some (Fin x) \<longrightarrow> reaches graph s v x) \<and>
      (\<forall>u items v w. u \<notin> U \<and> map_of graph u = Some items \<and> (v, w) \<in> set items
          \<and> v \<in> dom (map_of graph) \<longrightarrow> dv d v \<le> dist_add (dv d u) w) \<and>
      (\<forall>u v. u \<in> dom (map_of graph) \<and> u \<notin> U \<and> v \<in> U \<longrightarrow> dv d u \<le> dv d v))"

declare merge_loop.simps [simp del] merge_sort.simps [simp del]
declare binary_search_loop.simps [simp del] binary_search_simple_loop.simps [simp del]
declare dijkstra_loop.simps [simp del]
declare fib.simps [simp del]

section \<open>Merge sort: the loop computes the list merge\<close>

lemma merge_lists_Nil2 [simp]: "merge_lists le xs [] = xs"
  by (cases xs) simp_all

lemma merge_loop_lists:
  "merge_loop le left right i j result = (i', j', result') \<Longrightarrow>
     result' @ drop i' left @ drop j' right
       = result @ merge_lists le (drop i left) (drop j right)"
proof (induction le left right i j result rule: merge_loop.induct)
  case (1 le left right i j result)
  show ?case
  proof (cases "i < length left \<and> j < length right")
    case False
    with "1.prems" have "i' = i" "j' = j" "result' = result"
      by (simp_all add: merge_loop.simps [of le left right i j result])
    moreover from False have "drop i left = [] \<or> drop j right = []" by auto
    ultimately show ?thesis by auto
  next
    case True
    then have dl: "drop i left = left ! i # drop (Suc i) left"
      and dr: "drop j right = right ! j # drop (Suc j) right"
      by (simp_all add: Cons_nth_drop_Suc)
    show ?thesis
    proof (cases "le (left ! i) (right ! j)")
      case le: True
      with True "1.prems" have "merge_loop le left right (i + 1) j (result @ [left ! i]) = (i', j', result')"
        by (simp add: merge_loop.simps [of le left right i j result])
      from "1.IH"(1) [OF True le this] show ?thesis
        using le by (simp add: dl dr [symmetric]) (simp add: dr)
    next
      case nle: False
      with True "1.prems" have "merge_loop le left right i (j + 1) (result @ [right ! j]) = (i', j', result')"
        by (simp add: merge_loop.simps [of le left right i j result])
      from "1.IH"(2) [OF True nle this] show ?thesis
        using nle by (simp add: dr dl [symmetric]) (simp add: dl)
    qed
  qed
qed

lemma merge_eq_merge_lists: "merge le left right = merge_lists le left right"
proof -
  obtain i j result where r: "merge_loop le left right 0 0 [] = (i, j, result)"
    by (cases "merge_loop le left right 0 0 []") auto
  from merge_loop_lists [OF r] show ?thesis
    by (simp add: merge_def r)
qed

lemma mset_merge_lists: "mset (merge_lists le xs ys) = mset xs + mset ys"
  by (induction le xs ys rule: merge_lists.induct) auto

lemma set_merge_lists: "set (merge_lists le xs ys) = set xs \<union> set ys"
  by (induction le xs ys rule: merge_lists.induct) auto

lemma sorted_merge_lists:
  "sorted_wrt le xs \<Longrightarrow> sorted_wrt le ys \<Longrightarrow> total_preorder le \<Longrightarrow>
     sorted_wrt le (merge_lists le xs ys)"
proof (induction le xs ys rule: merge_lists.induct)
  case (3 le x xs y ys)
  from "3.prems"(3) have tot: "\<And>a b. le a b \<or> le b a" and tr: "\<And>a b c. le a b \<Longrightarrow> le b c \<Longrightarrow> le a c"
    unfolding total_preorder_def by blast+
  show ?case
  proof (cases "le x y")
    case True
    have "\<forall>z \<in> set (merge_lists le xs (y # ys)). le x z"
      using "3.prems" True tr by (auto simp: set_merge_lists)
    with True "3.IH"(1) "3.prems" show ?thesis by simp
  next
    case False
    with tot have yx: "le y x" by blast
    have "\<forall>z \<in> set (merge_lists le (x # xs) ys). le y z"
      using "3.prems" yx tr by (auto simp: set_merge_lists)
    with False "3.IH"(2) "3.prems" show ?thesis by simp
  qed
qed simp_all

lemma merge_lists_append:
  "\<forall>x \<in> set xs. \<forall>y \<in> set ys. le x y \<Longrightarrow> merge_lists le xs ys = xs @ ys"
  by (induction le xs ys rule: merge_lists.induct) auto

lemma filter_merge_lists:
  "sorted_wrt le xs \<Longrightarrow> total_preorder le \<Longrightarrow>
     filter (\<lambda>y. le a y \<and> le y a) (merge_lists le xs ys)
       = filter (\<lambda>y. le a y \<and> le y a) xs @ filter (\<lambda>y. le a y \<and> le y a) ys"
proof (induction le xs ys rule: merge_lists.induct)
  case (3 le x xs y ys)
  from "3.prems"(2) have tr: "\<And>a b c. le a b \<Longrightarrow> le b c \<Longrightarrow> le a c"
    unfolding total_preorder_def by blast
  show ?case
  proof (cases "le x y")
    case True
    with "3.IH"(1) "3.prems" show ?thesis by simp
  next
    case False
    have none: "le a y \<and> le y a \<Longrightarrow> filter (\<lambda>z. le a z \<and> le z a) (x # xs) = []"
    proof -
      assume ay: "le a y \<and> le y a"
      have "\<not> (le a z \<and> le z a)" if z: "z \<in> set (x # xs)" for z
      proof
        assume az: "le a z \<and> le z a"
        from z "3.prems"(1) have "z = x \<or> le x z" by auto
        moreover from az ay have "le z y" using tr by blast
        ultimately have "le x y" using tr by blast
        with False show False by simp
      qed
      then show ?thesis by (simp add: filter_empty_conv)
    qed
    from False "3.IH"(2) "3.prems"
    have "filter (\<lambda>z. le a z \<and> le z a) (merge_lists le (x # xs) (y # ys))
            = (if le a y \<and> le y a then [y] else []) @ filter (\<lambda>z. le a z \<and> le z a) (x # xs)
                @ filter (\<lambda>z. le a z \<and> le z a) ys"
      by simp
    also have "\<dots> = filter (\<lambda>z. le a z \<and> le z a) (x # xs) @ filter (\<lambda>z. le a z \<and> le z a) (y # ys)"
    proof (cases "le a y \<and> le y a")
      case True
      from none [OF True] True show ?thesis by (simp del: filter.simps add: filter.simps(1) filter.simps(2) [of _ y ys])
    next
      case False
      then show ?thesis by auto
    qed
    finally show ?thesis .
  qed
qed simp_all

lemma mset_merge_sort: "mset (merge_sort le arr) = mset arr"
proof (induction le arr rule: merge_sort.induct)
  case (1 le arr)
  show ?case
  proof (cases "length arr \<le> 1")
    case True
    then show ?thesis by (simp add: merge_sort.simps [of le arr])
  next
    case False
    have "mset (merge_sort le arr)
            = mset (merge_sort le (take (length arr div 2) arr))
              + mset (merge_sort le (drop (length arr div 2) arr))"
      using False
      by (simp add: merge_sort.simps [of le arr] Let_def merge_eq_merge_lists mset_merge_lists)
    also have "\<dots> = mset (take (length arr div 2) arr) + mset (drop (length arr div 2) arr)"
      using "1.IH" False by simp
    also have "\<dots> = mset arr"
      by (metis append_take_drop_id mset_append)
    finally show ?thesis .
  qed
qed

lemma sorted_merge_sort: "total_preorder le \<Longrightarrow> sorted_wrt le (merge_sort le arr)"
proof (induction le arr rule: merge_sort.induct)
  case (1 le arr)
  show ?case
  proof (cases "length arr \<le> 1")
    case True
    then have "arr = [] \<or> (\<exists>x. arr = [x])"
      by (cases arr) auto
    then show ?thesis by (auto simp: merge_sort.simps [of le arr])
  next
    case False
    from "1.IH"(1) [OF False refl "1.prems"] "1.IH"(2) [OF False refl refl "1.prems"]
    show ?thesis
      using False "1.prems"
      by (simp add: merge_sort.simps [of le arr] Let_def merge_eq_merge_lists sorted_merge_lists)
  qed
qed

lemma merge_sort_sorted_id: "sorted_wrt le arr \<Longrightarrow> merge_sort le arr = arr"
proof (induction le arr rule: merge_sort.induct)
  case (1 le arr)
  show ?case
  proof (cases "length arr \<le> 1")
    case True
    then show ?thesis by (simp add: merge_sort.simps [of le arr])
  next
    case False
    let ?m = "length arr div 2"
    from "1.prems" have s: "sorted_wrt le (take ?m arr @ drop ?m arr)" by simp
    then have st: "sorted_wrt le (take ?m arr)" and sd: "sorted_wrt le (drop ?m arr)"
      and cross: "\<forall>x \<in> set (take ?m arr). \<forall>y \<in> set (drop ?m arr). le x y"
      unfolding sorted_wrt_append by blast+
    from "1.IH"(1) [OF False refl st] "1.IH"(2) [OF False refl refl sd]
    have "merge_sort le arr = merge_lists le (take ?m arr) (drop ?m arr)"
      using False by (simp add: merge_sort.simps [of le arr] Let_def merge_eq_merge_lists)
    also have "\<dots> = take ?m arr @ drop ?m arr"
      using cross by (rule merge_lists_append)
    finally show ?thesis by simp
  qed
qed

lemma filter_merge_sort:
  "total_preorder le \<Longrightarrow>
     filter (\<lambda>y. le a y \<and> le y a) (merge_sort le arr) = filter (\<lambda>y. le a y \<and> le y a) arr"
proof (induction le arr rule: merge_sort.induct)
  case (1 le arr)
  show ?case
  proof (cases "length arr \<le> 1")
    case True
    then show ?thesis by (simp add: merge_sort.simps [of le arr])
  next
    case False
    let ?m = "length arr div 2"
    let ?P = "\<lambda>y. le a y \<and> le y a"
    have "filter ?P (merge_sort le arr)
            = filter ?P (merge_lists le (merge_sort le (take ?m arr)) (merge_sort le (drop ?m arr)))"
      using False by (simp add: merge_sort.simps [of le arr] Let_def merge_eq_merge_lists)
    also have "\<dots> = filter ?P (merge_sort le (take ?m arr)) @ filter ?P (merge_sort le (drop ?m arr))"
      using sorted_merge_sort [OF "1.prems"] "1.prems" by (rule filter_merge_lists)
    also have "\<dots> = filter ?P (take ?m arr) @ filter ?P (drop ?m arr)"
      using "1.IH"(1) [OF False refl "1.prems"] "1.IH"(2) [OF False refl refl "1.prems"] by simp
    also have "\<dots> = filter ?P arr"
      by (metis filter_append append_take_drop_id)
    finally show ?thesis .
  qed
qed

section \<open>Binary search: the interval invariant\<close>

lemma list_getitem_in_range:
  "0 \<le> i \<Longrightarrow> i < int (length arr) \<Longrightarrow> list_getitem arr i = Inr (arr ! nat i)"
  by (simp add: list_getitem_def)

lemma binary_search_loop_absent:
  "0 \<le> left \<Longrightarrow> right < int (length arr) \<Longrightarrow>
   \<forall>k. left \<le> k \<and> k \<le> right \<longrightarrow> arr ! nat k \<noteq> target \<Longrightarrow>
     binary_search_loop arr target left right = Inr (- 1)"
proof (induction arr target left right rule: binary_search_loop.induct)
  case (1 arr target left right)
  show ?case
  proof (cases "left \<le> right")
    case False
    then show ?thesis by (simp add: binary_search_loop.simps [of arr target left right])
  next
    case True
    define mid where "mid = (left + right) div 2"
    from True have mid: "left \<le> mid" "mid \<le> right" by (simp_all add: mid_def)
    with "1.prems" have get: "list_getitem arr mid = Inr (arr ! nat mid)"
      by (intro list_getitem_in_range) simp_all
    from mid "1.prems"(3) have ne: "arr ! nat mid \<noteq> target" by blast
    show ?thesis
    proof (cases "arr ! nat mid < target")
      case lt: True
      show ?thesis
      proof (cases "mid < int (length arr) - 1")
        case False
        with True lt ne get show ?thesis
          by (simp add: binary_search_loop.simps [of arr target left right] mid_def [symmetric])
      next
        case inb: True
        have "binary_search_loop arr target (mid + 1) right = Inr (- 1)"
          using "1.IH"(1) [OF True mid_def get ne lt inb] mid "1.prems" by simp
        with True lt ne get inb show ?thesis
          by (simp add: binary_search_loop.simps [of arr target left right] mid_def [symmetric])
      qed
    next
      case nlt: False
      show ?thesis
      proof (cases "mid > 0")
        case False
        with True nlt ne get show ?thesis
          by (simp add: binary_search_loop.simps [of arr target left right] mid_def [symmetric])
      next
        case inb: True
        have "binary_search_loop arr target left (mid - 1) = Inr (- 1)"
          using "1.IH"(2) [OF True mid_def get ne nlt inb] mid "1.prems" by simp
        with True nlt ne get inb show ?thesis
          by (simp add: binary_search_loop.simps [of arr target left right] mid_def [symmetric])
      qed
    qed
  qed
qed


lemma binary_search_loop_present:
  "sorted arr \<Longrightarrow> 0 \<le> left \<Longrightarrow> right < int (length arr) \<Longrightarrow>
   \<exists>k. left \<le> k \<and> k \<le> right \<and> arr ! nat k = target \<Longrightarrow>
     \<exists>j. binary_search_loop arr target left right = Inr j \<and> left \<le> j \<and> j \<le> right
           \<and> arr ! nat j = target"
proof (induction arr target left right rule: binary_search_loop.induct)
  case (1 arr target left right)
  from "1.prems"(4) obtain k where k: "left \<le> k" "k \<le> right" "arr ! nat k = target" by blast
  then have True: "left \<le> right" by simp
  define mid where "mid = (left + right) div 2"
  from True have mid: "left \<le> mid" "mid \<le> right" by (simp_all add: mid_def)
  with "1.prems" have get: "list_getitem arr mid = Inr (arr ! nat mid)"
    by (intro list_getitem_in_range) simp_all
  have mono: "arr ! nat a \<le> arr ! nat b" if "0 \<le> a" "a \<le> b" "b < int (length arr)" for a b
    using \<open>sorted arr\<close> that by (intro sorted_nth_mono) auto
  show ?case
  proof (cases "arr ! nat mid = target")
    case eq: True
    with True get mid show ?thesis
      by (simp add: binary_search_loop.simps [of arr target left right] mid_def [symmetric])
  next
    case ne: False
    show ?thesis
    proof (cases "arr ! nat mid < target")
      case lt: True
      have kmid: "mid < k"
      proof (rule ccontr)
        assume "\<not> mid < k"
        then have "arr ! nat k \<le> arr ! nat mid"
          using mono [of k mid] k mid "1.prems" by simp
        with lt k show False by simp
      qed
      with k "1.prems" have inb: "mid < int (length arr) - 1" by simp
      have "\<exists>k. mid + 1 \<le> k \<and> k \<le> right \<and> arr ! nat k = target"
        using kmid k by (intro exI [of _ k]) simp
      from "1.IH"(1) [OF True mid_def get ne lt inb "1.prems"(1) _ "1.prems"(3) this] mid "1.prems"(2)
      obtain j where "binary_search_loop arr target (mid + 1) right = Inr j"
        "mid + 1 \<le> j" "j \<le> right" "arr ! nat j = target" by auto
      with True lt ne get inb mid show ?thesis
        by (simp add: binary_search_loop.simps [of arr target left right] mid_def [symmetric])
    next
      case nlt: False
      have kmid: "k < mid"
      proof (rule ccontr)
        assume "\<not> k < mid"
        then have "arr ! nat mid \<le> arr ! nat k"
          using mono [of mid k] k mid "1.prems" by simp
        with nlt ne k show False by simp
      qed
      with k "1.prems" have inb: "mid > 0" by simp
      have "\<exists>k. left \<le> k \<and> k \<le> mid - 1 \<and> arr ! nat k = target"
        using kmid k by (intro exI [of _ k]) simp
      from "1.IH"(2) [OF True mid_def get ne nlt inb "1.prems"(1) "1.prems"(2) _ this] mid "1.prems"(3)
      obtain j where "binary_search_loop arr target left (mid - 1) = Inr j"
        "left \<le> j" "j \<le> mid - 1" "arr ! nat j = target" by auto
      with True nlt ne get inb mid show ?thesis
        by (simp add: binary_search_loop.simps [of arr target left right] mid_def [symmetric])
    qed
  qed
qed

lemma binary_search_loop_simple:
  "0 \<le> left \<Longrightarrow> right < int (length arr) \<Longrightarrow>
     binary_search_loop arr target left right = binary_search_simple_loop arr target left right"
proof (induction arr target left right rule: binary_search_loop.induct)
  case (1 arr target left right)
  show ?case
  proof (cases "left \<le> right")
    case False
    then show ?thesis
      by (simp add: binary_search_loop.simps [of arr target left right]
          binary_search_simple_loop.simps [of arr target left right])
  next
    case True
    define mid where "mid = (left + right) div 2"
    from True have mid: "left \<le> mid" "mid \<le> right" by (simp_all add: mid_def)
    with "1.prems" have get: "list_getitem arr mid = Inr (arr ! nat mid)"
      by (intro list_getitem_in_range) simp_all
    show ?thesis
    proof (cases "arr ! nat mid = target")
      case eq: True
      with True get show ?thesis
        by (simp add: binary_search_loop.simps [of arr target left right]
            binary_search_simple_loop.simps [of arr target left right] mid_def [symmetric])
    next
      case ne: False
      show ?thesis
      proof (cases "arr ! nat mid < target")
        case lt: True
        show ?thesis
        proof (cases "mid < int (length arr) - 1")
          case inb: True
          from "1.IH"(1) [OF True mid_def get ne lt inb] mid "1.prems"
          have "binary_search_loop arr target (mid + 1) right
                  = binary_search_simple_loop arr target (mid + 1) right" by simp
          with True lt ne get inb show ?thesis
            by (simp add: binary_search_loop.simps [of arr target left right]
                binary_search_simple_loop.simps [of arr target left right] mid_def [symmetric])
        next
          case out: False
          with mid "1.prems" have "\<not> mid + 1 \<le> right" by simp
          then have "binary_search_simple_loop arr target (mid + 1) right = Inr (- 1)"
            by (simp add: binary_search_simple_loop.simps [of arr target "mid + 1" right])
          with True lt ne get out show ?thesis
            by (simp add: binary_search_loop.simps [of arr target left right]
                binary_search_simple_loop.simps [of arr target left right] mid_def [symmetric])
        qed
      next
        case nlt: False
        show ?thesis
        proof (cases "mid > 0")
          case inb: True
          from "1.IH"(2) [OF True mid_def get ne nlt inb] mid "1.prems"
          have "binary_search_loop arr target left (mid - 1)
                  = binary_search_simple_loop arr target left (mid - 1)" by simp
          with True nlt ne get inb show ?thesis
            by (simp add: binary_search_loop.simps [of arr target left right]
                binary_search_simple_loop.simps [of arr target left right] mid_def [symmetric])
        next
          case out: False
          with mid "1.prems" have "\<not> left \<le> mid - 1" by simp
          then have "binary_search_simple_loop arr target left (mid - 1) = Inr (- 1)"
            by (simp add: binary_search_simple_loop.simps [of arr target left "mid - 1"])
          with True nlt ne get out show ?thesis
            by (simp add: binary_search_loop.simps [of arr target left right]
                binary_search_simple_loop.simps [of arr target left right] mid_def [symmetric])
        qed
      qed
    qed
  qed
qed

lemma in_set_int_index:
  "target \<in> set arr \<Longrightarrow> \<exists>k. 0 \<le> k \<and> k \<le> int (length arr) - 1 \<and> arr ! nat k = target"
proof -
  assume "target \<in> set arr"
  then obtain i where "i < length arr" "arr ! i = target" by (auto simp: in_set_conv_nth)
  then show ?thesis by (intro exI [of _ "int i"]) auto
qed

section \<open>Dijkstra: the loop invariant\<close>

lemma dist_add_mono: "a \<le> b \<Longrightarrow> dist_add a w \<le> dist_add b w"
  by (cases a; cases b) auto

lemma dist_add_nonneg: "0 \<le> w \<Longrightarrow> a \<le> dist_add a w"
  by (cases a) auto

lemma dv_Some [simp]: "d v = Some x \<Longrightarrow> dv d v = x"
  by (simp add: dv_def)

lemma dv_upd [simp]: "dv (d(k \<mapsto> x)) v = (if v = k then x else dv d v)"
  by (simp add: dv_def)

lemma min_scan_correct:
  "set rest \<subseteq> dom d \<Longrightarrow> d best = Some bk \<Longrightarrow>
     \<exists>c k. min_scan d best bk rest = Inr c \<and> c \<in> insert best (set rest) \<and> d c = Some k
        \<and> k \<le> bk \<and> (\<forall>v \<in> set rest. k \<le> dv d v)"
proof (induction rest arbitrary: best bk)
  case Nil
  then show ?case by simp
next
  case (Cons node rest)
  from Cons.prems obtain kn where kn: "d node = Some kn" by auto
  show ?case
  proof (cases "kn < bk")
    case True
    from Cons.IH [of node kn] Cons.prems kn
    obtain c k where "min_scan d node kn rest = Inr c" "c \<in> insert node (set rest)"
      "d c = Some k" "k \<le> kn" "\<forall>v \<in> set rest. k \<le> dv d v" by auto
    with True kn show ?thesis
      by (auto simp: dict_getitem_def)
  next
    case False
    from Cons.IH [of best bk] Cons.prems
    obtain c k where "min_scan d best bk rest = Inr c" "c \<in> insert best (set rest)"
      "d c = Some k" "k \<le> bk" "\<forall>v \<in> set rest. k \<le> dv d v" by auto
    with False kn show ?thesis
      by (auto simp: dict_getitem_def)
  qed
qed

lemma min_by_distance_correct:
  "unvisited \<noteq> [] \<Longrightarrow> set unvisited \<subseteq> dom d \<Longrightarrow>
     \<exists>c k. min_by_distance d unvisited = Inr c \<and> c \<in> set unvisited \<and> d c = Some k
        \<and> (\<forall>v \<in> set unvisited. k \<le> dv d v)"
proof (cases unvisited)
  case Nil
  assume "unvisited \<noteq> []"
  with Nil show ?thesis by simp
next
  case (Cons node rest)
  assume sub: "set unvisited \<subseteq> dom d"
  with Cons obtain kn where kn: "d node = Some kn" by auto
  from sub Cons have "set rest \<subseteq> dom d" by simp
  from min_scan_correct [OF this kn]
  obtain c k where "min_scan d node kn rest = Inr c" "c \<in> insert node (set rest)"
    "d c = Some k" "k \<le> kn" "\<forall>v \<in> set rest. k \<le> dv d v" by blast
  with Cons kn show ?thesis
    by (auto simp: dict_getitem_def)
qed


lemma relax_neighbors_correct:
  "d u = Some (Fin a) \<Longrightarrow> set U \<subseteq> dom d \<Longrightarrow> \<forall>v \<in> set U. Fin a \<le> dv d v \<Longrightarrow>
   \<forall>(v, w) \<in> set items. 0 \<le> w \<Longrightarrow>
     \<exists>d'. relax_neighbors U u items d = Inr d' \<and> dom d' = dom d \<and> d' u = Some (Fin a)
        \<and> (\<forall>v. v \<notin> set U \<longrightarrow> d' v = d v)
        \<and> (\<forall>v. dv d' v \<le> dv d v)
        \<and> (\<forall>v \<in> set U. Fin a \<le> dv d' v)
        \<and> (\<forall>(v, w) \<in> set items. v \<in> set U \<longrightarrow> dv d' v \<le> Fin (a + w))
        \<and> (\<forall>v. d' v = d v \<or> (\<exists>w. (v, w) \<in> set items \<and> d' v = Some (Fin (a + w))))"
proof (induction items arbitrary: d)
  case Nil
  then show ?case by simp
next
  case (Cons item items)
  obtain nb w where item: "item = (nb, w)" by (cases item)
  from Cons.prems(4) item have w: "0 \<le> w" and ws: "\<forall>(v, w) \<in> set items. 0 \<le> w" by auto
  show ?case
  proof (cases "nb \<in> set U")
    case False
    from Cons.IH [OF Cons.prems(1-3) ws]
    obtain d' where d': "relax_neighbors U u items d = Inr d'" "dom d' = dom d" "d' u = Some (Fin a)"
      "\<forall>v. v \<notin> set U \<longrightarrow> d' v = d v" "\<forall>v. dv d' v \<le> dv d v" "\<forall>v \<in> set U. Fin a \<le> dv d' v"
      "\<forall>(v, w) \<in> set items. v \<in> set U \<longrightarrow> dv d' v \<le> Fin (a + w)"
      "\<forall>v. d' v = d v \<or> (\<exists>w. (v, w) \<in> set items \<and> d' v = Some (Fin (a + w)))"
      by blast
    have "relax_neighbors U u (item # items) d = Inr d'"
      using False d'(1) by (simp add: item)
    moreover have "\<forall>(v, w) \<in> set (item # items). v \<in> set U \<longrightarrow> dv d' v \<le> Fin (a + w)"
      using d'(7) False by (auto simp: item)
    moreover have "\<forall>v. d' v = d v \<or> (\<exists>w. (v, w) \<in> set (item # items) \<and> d' v = Some (Fin (a + w)))"
      using d'(8) by (metis list.set_intros(2))
    ultimately show ?thesis using d'(2-6) by blast
  next
    case True
    with Cons.prems(2) obtain dn where dn: "d nb = Some dn" by auto
    from Cons.prems(3) True dn have adn: "Fin a \<le> dn" by force
    show ?thesis
    proof (cases "Fin (a + w) < dn")
      case lt: True
      define d1 where "d1 = d(nb \<mapsto> Fin (a + w))"
      have nbu: "nb \<noteq> u"
      proof
        assume "nb = u"
        with dn Cons.prems(1) have "dn = Fin a" by simp
        with lt w show False by simp
      qed
      have p1: "d1 u = Some (Fin a)" using nbu Cons.prems(1) by (simp add: d1_def)
      have p2: "set U \<subseteq> dom d1" using Cons.prems(2) by (auto simp: d1_def)
      have p3: "\<forall>v \<in> set U. Fin a \<le> dv d1 v" using Cons.prems(3) w by (simp add: d1_def)
      from Cons.IH [OF p1 p2 p3 ws]
      obtain d' where d': "relax_neighbors U u items d1 = Inr d'" "dom d' = dom d1" "d' u = Some (Fin a)"
        "\<forall>v. v \<notin> set U \<longrightarrow> d' v = d1 v" "\<forall>v. dv d' v \<le> dv d1 v" "\<forall>v \<in> set U. Fin a \<le> dv d' v"
        "\<forall>(v, w) \<in> set items. v \<in> set U \<longrightarrow> dv d' v \<le> Fin (a + w)"
        "\<forall>v. d' v = d1 v \<or> (\<exists>w. (v, w) \<in> set items \<and> d' v = Some (Fin (a + w)))"
        by blast
      have r1: "relax_neighbors U u (item # items) d = Inr d'"
        using True lt dn d'(1) Cons.prems(1)
        by (simp add: item dict_getitem_def d1_def)
      have r2: "dom d' = dom d" using d'(2) dn by (auto simp: d1_def)
      have r3: "\<forall>v. v \<notin> set U \<longrightarrow> d' v = d v"
        using d'(4) True by (auto simp: d1_def)
      have d1le: "dv d1 v \<le> dv d v" for v
        using lt dn by (auto simp: d1_def)
      have r4: "\<forall>v. dv d' v \<le> dv d v"
        using d'(5) d1le by (meson order.trans)
      have "dv d' nb \<le> Fin (a + w)"
        using d'(5) [rule_format, of nb] by (simp add: d1_def)
      then have r5: "\<forall>(v, w) \<in> set (item # items). v \<in> set U \<longrightarrow> dv d' v \<le> Fin (a + w)"
        using d'(7) by (auto simp: item)
      have r6: "\<forall>v. d' v = d v \<or> (\<exists>w. (v, w) \<in> set (item # items) \<and> d' v = Some (Fin (a + w)))"
      proof
        fix v
        from d'(8) consider "d' v = d1 v" | "\<exists>w. (v, w) \<in> set items \<and> d' v = Some (Fin (a + w))"
          by blast
        then show "d' v = d v \<or> (\<exists>w. (v, w) \<in> set (item # items) \<and> d' v = Some (Fin (a + w)))"
        proof cases
          case 1
          then show ?thesis by (cases "v = nb") (auto simp: d1_def item)
        next
          case 2
          then show ?thesis by auto
        qed
      qed
      from r1 r2 d'(3) r3 r4 d'(6) r5 r6 show ?thesis by blast
    next
      case nlt: False
      from Cons.IH [OF Cons.prems(1-3) ws]
      obtain d' where d': "relax_neighbors U u items d = Inr d'" "dom d' = dom d" "d' u = Some (Fin a)"
        "\<forall>v. v \<notin> set U \<longrightarrow> d' v = d v" "\<forall>v. dv d' v \<le> dv d v" "\<forall>v \<in> set U. Fin a \<le> dv d' v"
        "\<forall>(v, w) \<in> set items. v \<in> set U \<longrightarrow> dv d' v \<le> Fin (a + w)"
        "\<forall>v. d' v = d v \<or> (\<exists>w. (v, w) \<in> set items \<and> d' v = Some (Fin (a + w)))"
        by blast
      have r1: "relax_neighbors U u (item # items) d = Inr d'"
        using True nlt dn d'(1) Cons.prems(1)
        by (simp add: item dict_getitem_def)
      have "dv d' nb \<le> dv d nb" using d'(5) by blast
      also have "\<dots> = dn" using dn by simp
      also have "\<dots> \<le> Fin (a + w)" using nlt by simp
      finally have "dv d' nb \<le> Fin (a + w)" .
      then have r5: "\<forall>(v, w) \<in> set (item # items). v \<in> set U \<longrightarrow> dv d' v \<le> Fin (a + w)"
        using d'(7) by (auto simp: item)
      have r6: "\<forall>v. d' v = d v \<or> (\<exists>w. (v, w) \<in> set (item # items) \<and> d' v = Some (Fin (a + w)))"
        using d'(8) by (metis list.set_intros(2))
      from r1 d'(2-6) r5 r6 show ?thesis by blast
    qed
  qed
qed


lemma is_path_append:
  "is_path g u (p @ q) \<longleftrightarrow> is_path g u p \<and> is_path g (path_end u p) q"
  by (induction g u p rule: is_path.induct) (auto split: option.splits)

lemma path_end_append: "path_end u (p @ q) = path_end (path_end u p) q"
  by (induction u p rule: path_end.induct) auto

lemma reaches_start: "reaches g s s 0"
  unfolding reaches_def by (rule exI [of _ "[]"]) (simp add: path_weight_def)

lemma reaches_step:
  assumes "reaches g s u x" and "map_of g u = Some items" and "(v, w) \<in> set items"
  shows "reaches g s v (x + w)"
proof -
  from assms(1) obtain p where p: "is_path g s p" "path_end s p = u" "path_weight p = x"
    unfolding reaches_def by blast
  have "is_path g s (p @ [(v, w)])"
    using p assms(2,3) by (simp add: is_path_append)
  moreover have "path_end s (p @ [(v, w)]) = v"
    by (simp add: path_end_append)
  moreover have "path_weight (p @ [(v, w)]) = x + w"
    using p(3) by (simp add: path_weight_def)
  ultimately show ?thesis unfolding reaches_def by blast
qed

lemma nonneg_weights_edge:
  assumes "nonneg_weights g" and "map_of g u = Some items" and "(v, w) \<in> set items"
  shows "0 \<le> w"
proof -
  from assms(2) have "(u, items) \<in> set g" by (rule map_of_SomeD)
  with assms(1,3) show ?thesis
    unfolding nonneg_weights_def list_all_iff by fastforce
qed

lemma nonneg_path_weight:
  "nonneg_weights g \<Longrightarrow> is_path g u p \<Longrightarrow> 0 \<le> path_weight p"
proof (induction g u p rule: is_path.induct)
  case (1 graph u)
  then show ?case by (simp add: path_weight_def)
next
  case (2 graph u v w p)
  from "2.prems"(2) obtain items where items: "map_of graph u = Some items" "(v, w) \<in> set items"
    "is_path graph v p" by (auto split: option.splits)
  from nonneg_weights_edge [OF "2.prems"(1) items(1,2)] have "0 \<le> w" .
  moreover from "2.IH" [OF items(1) "2.prems"(1) items(3)] have "0 \<le> path_weight p" .
  ultimately show ?case by (simp add: path_weight_def)
qed

lemma dijkstra_inv_step:
  assumes inv: "dijkstra_inv g s (set U) d"
    and nn: "nonneg_weights g"
    and c: "c \<in> set U" "d c = Some (Fin a)"
    and least: "\<forall>v \<in> set U. Fin a \<le> dv d v"
    and items: "map_of g c = Some items"
  shows "\<exists>d'. relax_neighbors U c items d = Inr d' \<and> dijkstra_inv g s (set (removeAll c U)) d'"
proof -
  let ?V = "dom (map_of g)"
  from inv have sub: "set U \<subseteq> ?V" and domd: "dom d = insert s ?V" and ds: "dv d s \<le> Fin 0"
    and sound: "\<And>v x. d v = Some (Fin x) \<Longrightarrow> reaches g s v x"
    and relaxed: "\<And>u items v w. u \<notin> set U \<Longrightarrow> map_of g u = Some items \<Longrightarrow> (v, w) \<in> set items
          \<Longrightarrow> v \<in> ?V \<Longrightarrow> dv d v \<le> dist_add (dv d u) w"
    and mono: "\<And>u v. u \<in> ?V \<Longrightarrow> u \<notin> set U \<Longrightarrow> v \<in> set U \<Longrightarrow> dv d u \<le> dv d v"
    unfolding dijkstra_inv_def by blast+
  from sub domd have subd: "set U \<subseteq> dom d" by auto
  have ws: "\<forall>(v, w) \<in> set items. 0 \<le> w"
    using nonneg_weights_edge [OF nn items] by auto
  from relax_neighbors_correct [OF c(2) subd least ws]
  obtain d' where d': "relax_neighbors U c items d = Inr d'" "dom d' = dom d" "d' c = Some (Fin a)"
    "\<And>v. v \<notin> set U \<Longrightarrow> d' v = d v" "\<And>v. dv d' v \<le> dv d v" "\<And>v. v \<in> set U \<Longrightarrow> Fin a \<le> dv d' v"
    "\<And>v w. (v, w) \<in> set items \<Longrightarrow> v \<in> set U \<Longrightarrow> dv d' v \<le> Fin (a + w)"
    "\<And>v. d' v = d v \<or> (\<exists>w. (v, w) \<in> set items \<and> d' v = Some (Fin (a + w)))"
    by (auto; blast)
  have same: "dv d' v = dv d v" if "v \<notin> set U" for v
    using d'(4) [OF that] by (simp add: dv_def)
  have i1: "set (removeAll c U) \<subseteq> ?V" using sub by auto
  have i2: "dom d' = insert s ?V" using d'(2) domd by simp
  have i3: "dv d' s \<le> Fin 0" using d'(5) [of s] ds by (rule order.trans)
  have i4: "reaches g s v x" if "d' v = Some (Fin x)" for v x
  proof -
    from d'(8) [of v] show ?thesis
    proof
      assume "d' v = d v"
      with that sound show ?thesis by simp
    next
      assume "\<exists>w. (v, w) \<in> set items \<and> d' v = Some (Fin (a + w))"
      then obtain w where w: "(v, w) \<in> set items" "d' v = Some (Fin (a + w))" by blast
      from reaches_step [OF sound [OF c(2)] items w(1)] w(2) that show ?thesis by simp
    qed
  qed
  have i5: "dv d' v \<le> dist_add (dv d' u) w"
    if "u \<notin> set (removeAll c U)" "map_of g u = Some its" "(v, w) \<in> set its" "v \<in> ?V" for u its v w
  proof (cases "u = c")
    case True
    with that(2) items have its: "its = items" by simp
    from nonneg_weights_edge [OF nn that(2,3)] have w0: "0 \<le> w" .
    have dc: "dv d' u = Fin a" using True d'(3) by simp
    show ?thesis
    proof (cases "v \<in> set U")
      case True
      from d'(7) [OF that(3) [unfolded its] True] show ?thesis by (simp add: dc)
    next
      case False
      have "dv d' v = dv d v" using same [OF False] .
      also have "\<dots> \<le> dv d c" using mono [OF that(4) False c(1)] .
      also have "\<dots> = Fin a" using c(2) by simp
      also have "\<dots> \<le> Fin (a + w)" using w0 by simp
      finally show ?thesis by (simp add: dc)
    qed
  next
    case False
    with that(1) have u: "u \<notin> set U" by simp
    have "dv d' v \<le> dv d v" by (rule d'(5))
    also have "\<dots> \<le> dist_add (dv d u) w" using relaxed [OF u that(2,3,4)] .
    also have "\<dots> = dist_add (dv d' u) w" using same [OF u] by simp
    finally show ?thesis .
  qed
  have i6: "dv d' u \<le> dv d' v" if "u \<in> ?V" "u \<notin> set (removeAll c U)" "v \<in> set (removeAll c U)" for u v
  proof -
    from that(3) have v: "v \<in> set U" by simp
    show ?thesis
    proof (cases "u = c")
      case True
      then have "dv d' u = Fin a" using d'(3) by simp
      with d'(6) [OF v] show ?thesis by simp
    next
      case False
      with that(2) have u: "u \<notin> set U" by simp
      have "dv d' u = dv d u" using same [OF u] .
      also have "\<dots> \<le> dv d c" using mono [OF that(1) u c(1)] .
      also have "\<dots> = Fin a" using c(2) by simp
      also have "\<dots> \<le> dv d' v" using d'(6) [OF v] .
      finally show ?thesis .
    qed
  qed
  have "dijkstra_inv g s (set (removeAll c U)) d'"
    unfolding dijkstra_inv_def using i1 i2 i3 i4 i5 i6 by blast
  with d'(1) show ?thesis by blast
qed


lemma dijkstra_loop_unreachable:
  "U \<noteq> [] \<Longrightarrow> min_by_distance d U = Inr c \<Longrightarrow> d c = Some PInf \<Longrightarrow> dijkstra_loop g U d = Inr d"
  by (subst dijkstra_loop.simps) (simp add: dict_getitem_def)

lemma dijkstra_loop_empty: "dijkstra_loop g [] d = Inr d"
  by (subst dijkstra_loop.simps) simp

lemma dijkstra_loop_correct:
  "dijkstra_inv g s (set U) d \<Longrightarrow> nonneg_weights g \<Longrightarrow>
     \<exists>r U'. dijkstra_loop g U d = Inr r \<and> dijkstra_inv g s U' r \<and> (\<forall>v \<in> U'. dv r v = PInf)"
proof (induction g U d rule: dijkstra_loop.induct)
  case (1 graph unvisited distances)
  note inv = "1.prems"(1) and nn = "1.prems"(2)
  show ?case
  proof (cases "unvisited = []")
    case True
    then have "dijkstra_loop graph unvisited distances = Inr distances"
      by (simp only: dijkstra_loop_empty)
    moreover from inv True have "dijkstra_inv graph s {} distances" by simp
    ultimately show ?thesis by blast
  next
    case False
    from inv have sub: "set unvisited \<subseteq> dom (map_of graph)"
      and domd: "dom distances = insert s (dom (map_of graph))"
      unfolding dijkstra_inv_def by blast+
    then have subd: "set unvisited \<subseteq> dom distances" by auto
    from min_by_distance_correct [OF False subd]
    obtain c k where c: "min_by_distance distances unvisited = Inr c" "c \<in> set unvisited"
      "distances c = Some k" "\<forall>v \<in> set unvisited. k \<le> dv distances v" by blast
    have getc: "dict_getitem distances c = Inr k" using c(3) by (simp add: dict_getitem_def)
    show ?thesis
    proof (cases k)
      case PInf
      have "dijkstra_loop graph unvisited distances = Inr distances"
        using False c(1) c(3) [unfolded PInf] by (rule dijkstra_loop_unreachable)
      moreover have "\<forall>v \<in> set unvisited. dv distances v = PInf"
      proof
        fix v assume "v \<in> set unvisited"
        with c(4) PInf have "PInf \<le> dv distances v" by simp
        then show "dv distances v = PInf" by (cases "dv distances v") simp_all
      qed
      ultimately show ?thesis using inv by blast
    next
      case (Fin a)
      then have kne: "k \<noteq> PInf" by simp
      from c(2) sub obtain items where items: "map_of graph c = Some items" by auto
      then have geti: "dict_getitem (map_of graph) c = Inr items" by (simp add: dict_getitem_def)
      from dijkstra_inv_step [OF inv nn c(2) c(3) [unfolded Fin] c(4) [unfolded Fin] items]
      obtain d' where d': "relax_neighbors unvisited c items distances = Inr d'"
        "dijkstra_inv graph s (set (removeAll c unvisited)) d'" by blast
      from "1.IH" [OF False c(1) getc kne geti d'(1) c(2) d'(2) nn]
      obtain r U' where r: "dijkstra_loop graph (removeAll c unvisited) d' = Inr r"
        "dijkstra_inv graph s U' r" "\<forall>v \<in> U'. dv r v = PInf" by blast
      have "dijkstra_loop graph unvisited distances = Inr r"
        by (subst dijkstra_loop.simps) (simp add: False c(1,2) getc kne geti d'(1) r(1))
      with r(2,3) show ?thesis by blast
    qed
  qed
qed

lemma dijkstra_inv_lower_bound:
  assumes inv: "dijkstra_inv g s U r" and inf: "\<forall>v \<in> U. dv r v = PInf"
  shows "is_path g s p \<Longrightarrow> path_end s p \<in> dom (map_of g) \<Longrightarrow>
           dv r (path_end s p) \<le> Fin (path_weight p)"
proof (induction p rule: rev_induct)
  case Nil
  from inv show ?case by (simp add: dijkstra_inv_def path_weight_def)
next
  case (snoc e q)
  obtain y w where e: "e = (y, w)" by (cases e)
  define x where "x = path_end s q"
  from snoc.prems(1) have q: "is_path g s q" and edge: "is_path g x [e]"
    by (simp_all add: is_path_append x_def)
  from edge obtain items where items: "map_of g x = Some items" "(y, w) \<in> set items"
    by (auto simp: e split: option.splits)
  then have xV: "x \<in> dom (map_of g)" by auto
  from snoc.IH [OF q] xV have le: "dv r x \<le> Fin (path_weight q)" by (simp add: x_def)
  have xU: "x \<notin> U"
  proof
    assume "x \<in> U"
    with inf have "dv r x = PInf" by blast
    with le show False by simp
  qed
  have yend: "path_end s (q @ [e]) = y" by (simp add: path_end_append e)
  with snoc.prems(2) have yV: "y \<in> dom (map_of g)" by simp
  from inv xU items yV have "dv r y \<le> dist_add (dv r x) w"
    unfolding dijkstra_inv_def by blast
  also have "\<dots> \<le> dist_add (Fin (path_weight q)) w" using le by (rule dist_add_mono)
  also have "\<dots> = Fin (path_weight (q @ [e]))" by (simp add: path_weight_def e)
  finally show ?case by (simp add: yend)
qed

lemma map_of_const:
  "map_of (map (\<lambda>node. (node, c)) ks) v = (if v \<in> set ks then Some c else None)"
  by (induction ks) auto

lemma init_distances_lookup:
  "((map_of (map (\<lambda>node. (node, PInf)) (map fst g)))(s \<mapsto> Fin 0)) v
     = (if v = s then Some (Fin 0) else if v \<in> set (map fst g) then Some PInf else None)"
  by (simp del: map_map add: map_of_const)

lemma dijkstra_inv_init:
  "dijkstra_inv g s (set (remdups (map fst g)))
     ((map_of (map (\<lambda>node. (node, PInf)) (map fst g)))(s \<mapsto> Fin 0))"
proof -
  define d where "d = (map_of (map (\<lambda>node. (node, PInf)) (map fst g)))(s \<mapsto> Fin 0)"
  have look: "d v = (if v = s then Some (Fin 0) else if v \<in> set (map fst g) then Some PInf else None)"
    for v unfolding d_def by (rule init_distances_lookup)
  have V: "dom (map_of g) = set (map fst g)" by (simp add: dom_map_of_conv_image_fst)
  have i2: "dom d = insert s (set (map fst g))"
    unfolding dom_def by (auto simp only: look split: if_splits)
  have i3: "dv d s \<le> Fin 0" by (simp add: dv_def look)
  have i4: "reaches g s v x" if "d v = Some (Fin x)" for v x
  proof -
    from that have "v = s \<and> x = 0" by (auto simp only: look split: if_splits)
    then show ?thesis using reaches_start by simp
  qed
  have i5: "u \<in> set (map fst g)" if "map_of g u = Some items" for u items
    using that V by blast
  have "dijkstra_inv g s (set (remdups (map fst g))) d"
    unfolding dijkstra_inv_def V using i2 i3 i4 i5 by (simp only: set_remdups) blast
  then show ?thesis unfolding d_def .
qed

lemma dijkstra_result:
  assumes nn: "nonneg_weights g" and s: "s \<in> set (map fst g)"
  shows "\<exists>r. dijkstra_shortest_path g s = Inr r \<and> dom r = set (map fst g) \<and> r s = Some (Fin 0)
    \<and> (\<forall>v \<in> set (map fst g).
          case r v of
            None \<Rightarrow> False
          | Some PInf \<Rightarrow> \<not> (\<exists>p. is_path g s p \<and> path_end s p = v)
          | Some (Fin x) \<Rightarrow>
              (\<exists>p. is_path g s p \<and> path_end s p = v \<and> path_weight p = x) \<and>
              (\<forall>p. is_path g s p \<and> path_end s p = v \<longrightarrow> x \<le> path_weight p))"
proof -
  have V: "dom (map_of g) = set (map fst g)" by (simp add: dom_map_of_conv_image_fst)
  have "\<exists>r U'. dijkstra_shortest_path g s = Inr r \<and> dijkstra_inv g s U' r
          \<and> (\<forall>v \<in> U'. dv r v = PInf)"
    unfolding dijkstra_shortest_path_def Let_def
    by (rule dijkstra_loop_correct [OF dijkstra_inv_init nn])
  then obtain r U' where r: "dijkstra_shortest_path g s = Inr r" "dijkstra_inv g s U' r"
    "\<forall>v \<in> U'. dv r v = PInf"
    by (elim exE conjE)
  from r(2) have "dom r = insert s (set (map fst g))"
    unfolding dijkstra_inv_def V by (elim conjE)
  with s have domr: "dom r = set (map fst g)" by (simp add: insert_absorb)
  from r(2) have rs: "dv r s \<le> Fin 0"
    unfolding dijkstra_inv_def by (elim conjE)
  from r(2) have "\<forall>v x. r v = Some (Fin x) \<longrightarrow> reaches g s v x"
    unfolding dijkstra_inv_def by (elim conjE)
  then have sound: "\<And>v x. r v = Some (Fin x) \<Longrightarrow> reaches g s v x" by simp
  note lower = dijkstra_inv_lower_bound [OF r(2,3), unfolded V]
  have start: "r s = Some (Fin 0)"
  proof -
    from domr s obtain k where k: "r s = Some k" by auto
    with rs obtain x where x: "k = Fin x" "x \<le> 0" by (cases k) auto
    from sound [OF k [unfolded x(1)]] obtain p where "is_path g s p" "path_weight p = x"
      unfolding reaches_def by blast
    with nonneg_path_weight [OF nn] have "0 \<le> x" by blast
    with x k show ?thesis by simp
  qed
  have each: "case r v of
            None \<Rightarrow> False
          | Some PInf \<Rightarrow> \<not> (\<exists>p. is_path g s p \<and> path_end s p = v)
          | Some (Fin x) \<Rightarrow>
              (\<exists>p. is_path g s p \<and> path_end s p = v \<and> path_weight p = x) \<and>
              (\<forall>p. is_path g s p \<and> path_end s p = v \<longrightarrow> x \<le> path_weight p)"
    if v: "v \<in> set (map fst g)" for v
  proof -
    from domr v obtain k where k: "r v = Some k" by auto
    show ?thesis
    proof (cases k)
      case PInf
      have "\<not> (\<exists>p. is_path g s p \<and> path_end s p = v)"
      proof
        assume "\<exists>p. is_path g s p \<and> path_end s p = v"
        then obtain p where p: "is_path g s p" "path_end s p = v" by blast
        from lower [OF p(1)] p(2) v k PInf show False by simp
      qed
      with k PInf show ?thesis by simp
    next
      case (Fin x)
      from sound [OF k [unfolded Fin]]
      have ex: "\<exists>p. is_path g s p \<and> path_end s p = v \<and> path_weight p = x"
        unfolding reaches_def .
      have "x \<le> path_weight p" if p: "is_path g s p" "path_end s p = v" for p
        using lower [OF p(1)] p(2) v k Fin by simp
      with ex k Fin show ?thesis by simp
    qed
  qed
  show ?thesis
    using r(1) domr start each by (intro exI [of _ r] conjI ballI)
qed

lemma dijkstra_absent_start:
  assumes "s \<notin> set (map fst g)"
  shows "dijkstra_shortest_path g s
           = Inr ((map_of (map (\<lambda>node. (node, PInf)) (map fst g)))(s \<mapsto> Fin 0))"
proof -
  define d where "d = (map_of (map (\<lambda>node. (node, PInf)) (map fst g)))(s \<mapsto> Fin 0)"
  define U where "U = remdups (map fst g)"
  have look: "d v = (if v = s then Some (Fin 0) else if v \<in> set (map fst g) then Some PInf else None)"
    for v unfolding d_def by (rule init_distances_lookup)
  have "dijkstra_loop g U d = Inr d"
  proof (cases "U = []")
    case True
    then show ?thesis by (simp only: dijkstra_loop_empty)
  next
    case False
    have vals: "d v = Some PInf" if "v \<in> set U" for v
      using that assms by (auto simp: look U_def)
    then have "set U \<subseteq> dom d" by blast
    from min_by_distance_correct [OF False this]
    obtain c k where c: "min_by_distance d U = Inr c" "c \<in> set U" "d c = Some k" by blast
    from vals [OF c(2)] c(3) have k: "k = PInf" by simp
    from False c(1) c(3) [unfolded k] show ?thesis by (rule dijkstra_loop_unreachable)
  qed
  then show ?thesis
    unfolding dijkstra_shortest_path_def Let_def d_def U_def .
qed

lemma dijkstra_example:
  "dijkstra_shortest_path example_graph ''A''
     = Inr [''A'' \<mapsto> Fin 0, ''B'' \<mapsto> Fin 1, ''C'' \<mapsto> Fin 3, ''D'' \<mapsto> Fin 4]"
  by (simp add: dijkstra_shortest_path_def example_graph_def dict_getitem_def fun_eq_iff
      dijkstra_loop.simps)

section \<open>Fibonacci: the memo table and the stack\<close>

lemma fib_spec_int_rec:
  assumes "2 \<le> n"
  shows "fib_spec (nat n) = fib_spec (nat (n - 1)) + fib_spec (nat (n - 2))"
proof -
  define k where "k = nat (n - 2)"
  from assms have "nat n = Suc (Suc k)" "nat (n - 1) = Suc k"
    by (simp_all add: k_def)
  then show ?thesis by (simp add: k_def)
qed

lemma fib_spec_small: "0 \<le> n \<Longrightarrow> n \<le> 1 \<Longrightarrow> fib_spec (nat n) = n"
proof -
  assume "0 \<le> n" "n \<le> 1"
  then have "n = 0 \<or> n = 1" by arith
  then show ?thesis by auto
qed

lemma fib_correct:
  "memo_ok m \<Longrightarrow> num \<le> int room + 1 \<Longrightarrow>
     \<exists>r m'. fib room num m = Inr (r, m') \<and> memo_ok m'
        \<and> r = (if num \<le> 1 then num else fib_spec (nat num))"
proof (induction room num m rule: fib.induct)
  case (1 room num memo)
  show ?case
  proof (cases "memo num")
    case (Some v)
    with "1.prems"(1) have "2 \<le> num" "v = fib_spec (nat num)"
      unfolding memo_ok_def by blast+
    with Some "1.prems"(1) show ?thesis
      by (simp add: fib.simps [of room num memo])
  next
    case None
    show ?thesis
    proof (cases "num \<le> 1")
      case True
      with None "1.prems"(1) show ?thesis
        by (simp add: fib.simps [of room num memo])
    next
      case False
      with "1.prems"(2) obtain room' where room: "room = Suc room'"
        by (cases room) auto
      from "1.prems"(2) room have b1: "num - 1 \<le> int room' + 1" by simp
      from "1.IH"(1) [OF None False room "1.prems"(1) b1]
      obtain a m1 where a: "fib room' (num - 1) memo = Inr (a, m1)" "memo_ok m1"
        "a = (if num - 1 \<le> 1 then num - 1 else fib_spec (nat (num - 1)))" by blast
      from "1.prems"(2) room have b2: "num - 2 \<le> int room' + 1" by simp
      from "1.IH"(2) [OF None False room a(1) refl a(2) b2]
      obtain b m2 where b: "fib room' (num - 2) m1 = Inr (b, m2)" "memo_ok m2"
        "b = (if num - 2 \<le> 1 then num - 2 else fib_spec (nat (num - 2)))" by blast
      from False have ge2: "2 \<le> num" by simp
      have a': "a = fib_spec (nat (num - 1))"
        using a(3) ge2 fib_spec_small [of "num - 1"] by (cases "num - 1 \<le> 1") simp_all
      have b': "b = fib_spec (nat (num - 2))"
        using b(3) ge2 fib_spec_small [of "num - 2"] by (cases "num - 2 \<le> 1") simp_all
      have res: "fib room num memo = Inr (a + b, m2(num \<mapsto> a + b))"
        using None False a(1) b(1) unfolding room by (subst fib.simps) (simp add: Let_def)
      have val: "a + b = fib_spec (nat num)"
        using fib_spec_int_rec [OF ge2] a' b' by simp
      have "memo_ok (m2(num \<mapsto> a + b))"
        using b(2) val ge2 unfolding memo_ok_def by auto
      with res val False show ?thesis by simp
    qed
  qed
qed

lemma fib_overflow:
  "int room + 1 < num \<Longrightarrow> fib room num Map.empty = Inl RecursionError"
proof (induction room arbitrary: num)
  case 0
  then show ?case by (simp add: fib.simps [of 0 num Map.empty])
next
  case (Suc room)
  from Suc.prems have "int room + 1 < num - 1" by simp
  from Suc.IH [OF this] Suc.prems show ?case
    by (simp add: fib.simps [of "Suc room" num Map.empty])
qed

lemma fibonacci_dynamic_eq:
  assumes "0 \<le> n" and "n \<le> int room + 1"
  shows "fibonacci_dynamic room n = Inr (fib_spec (nat n))"
proof -
  have "memo_ok Map.empty" by (simp add: memo_ok_def)
  from fib_correct [OF this assms(2)]
  obtain r m' where r: "fib room n Map.empty = Inr (r, m')"
    "r = (if n \<le> 1 then n else fib_spec (nat n))" by blast
  from r(2) assms(1) fib_spec_small [of n] have "r = fib_spec (nat n)"
    by (cases "n \<le> 1") simp_all
  with r(1) show ?thesis by (simp add: fibonacci_dynamic_def)
qed

lemma fibonacci_dynamic_overflow:
  "int room + 1 < n \<Longrightarrow> fibonacci_dynamic room n = Inl RecursionError"
  by (simp add: fibonacci_dynamic_def fib_overflow)

lemma fib_spec_10: "fib_spec (nat 10) = 55"
  by code_simp

section \<open>The properties of the specification\<close>

subsection \<open>Shortest paths\<close>

text \<open>
  C1. For every graph given as an adjacency map with non-negative edge weights and every
  start node that is a key of the graph, \<open>dijkstra_shortest_path graph start\<close> returns
  normally with a mapping whose keys are exactly the nodes (keys) of the graph, in which
  start maps to 0, every node that some path from start reaches maps to the least total
  weight of such a path (a path of that weight exists and no path is lighter), and every
  node that no path reaches maps to positive infinity. On the graph
  \<open>{A:{B:1,C:4}, B:{C:2,D:5}, C:{D:1}, D:{}}\<close> with start A the result is
  \<open>{A:0, B:1, C:3, D:4}\<close>.
\<close>

theorem dijkstra_shortest_path_correct:
  "(nonneg_weights g \<and> s \<in> set (graph_keys g) \<longrightarrow>
      (\<exists>r. dijkstra_shortest_path g s = Inr r \<and> dom r = set (graph_keys g)
         \<and> r s = Some (Fin 0)
         \<and> (\<forall>v \<in> set (graph_keys g).
               case r v of
                 None \<Rightarrow> False
               | Some PInf \<Rightarrow> \<not> (\<exists>p. is_path g s p \<and> path_end s p = v)
               | Some (Fin x) \<Rightarrow>
                   (\<exists>p. is_path g s p \<and> path_end s p = v \<and> path_weight p = x) \<and>
                   (\<forall>p. is_path g s p \<and> path_end s p = v \<longrightarrow> x \<le> path_weight p))))
   \<and> dijkstra_shortest_path example_graph ''A''
       = Inr [''A'' \<mapsto> Fin 0, ''B'' \<mapsto> Fin 1, ''C'' \<mapsto> Fin 3, ''D'' \<mapsto> Fin 4]"
proof (intro conjI impI)
  assume "nonneg_weights g \<and> s \<in> set (graph_keys g)"
  then show "\<exists>r. dijkstra_shortest_path g s = Inr r \<and> dom r = set (graph_keys g)
         \<and> r s = Some (Fin 0)
         \<and> (\<forall>v \<in> set (graph_keys g).
               case r v of
                 None \<Rightarrow> False
               | Some PInf \<Rightarrow> \<not> (\<exists>p. is_path g s p \<and> path_end s p = v)
               | Some (Fin x) \<Rightarrow>
                   (\<exists>p. is_path g s p \<and> path_end s p = v \<and> path_weight p = x) \<and>
                   (\<forall>p. is_path g s p \<and> path_end s p = v \<longrightarrow> x \<le> path_weight p))"
    using dijkstra_result [of g s] by (elim conjE)
next
  show "dijkstra_shortest_path example_graph ''A''
       = Inr [''A'' \<mapsto> Fin 0, ''B'' \<mapsto> Fin 1, ''C'' \<mapsto> Fin 3, ''D'' \<mapsto> Fin 4]"
    by (rule dijkstra_example)
qed

theorem dijkstra_shortest_path_correct_witness:
  "nonneg_weights example_graph \<and> ''A'' \<in> set (graph_keys example_graph) \<and>
   (\<exists>r. dijkstra_shortest_path example_graph ''A'' = Inr r
      \<and> dom r = set (graph_keys example_graph)
      \<and> r ''A'' = Some (Fin 0)
      \<and> (\<forall>v \<in> set (graph_keys example_graph).
               case r v of
                 None \<Rightarrow> False
               | Some PInf \<Rightarrow> \<not> (\<exists>p. is_path example_graph ''A'' p \<and> path_end ''A'' p = v)
               | Some (Fin x) \<Rightarrow>
                   (\<exists>p. is_path example_graph ''A'' p \<and> path_end ''A'' p = v \<and> path_weight p = x) \<and>
                   (\<forall>p. is_path example_graph ''A'' p \<and> path_end ''A'' p = v
                      \<longrightarrow> x \<le> path_weight p)))"
proof -
  have h: "nonneg_weights example_graph \<and> ''A'' \<in> set (graph_keys example_graph)"
    by (simp add: nonneg_weights_def example_graph_def)
  from dijkstra_shortest_path_correct [of example_graph "''A''", THEN conjunct1, rule_format, OF h] h
  show ?thesis by (intro conjI) simp_all
qed

text \<open>
  C6. The claim that a start node outside the graph's keys makes the call fail does not
  hold of the code: the assignment \<open>distances[start] = 0\<close> adds the key, nothing reads a
  missing key, and the call returns a mapping. On \<open>{A:{B:1}, B:{}}\<close> with start Z the
  result is \<open>{A:inf, B:inf, Z:0}\<close>.
\<close>

theorem dijkstra_absent_start_counterexample:
  "dijkstra_shortest_path [(''A'', [(''B'', 1)]), (''B'', [])] ''Z''
     = Inr [''A'' \<mapsto> PInf, ''B'' \<mapsto> PInf, ''Z'' \<mapsto> Fin 0]"
  by (simp add: dijkstra_shortest_path_def dict_getitem_def fun_eq_iff dijkstra_loop.simps)

text \<open>
  C6, as the code has it. For every graph and every start node that is not a key of the
  graph, \<open>dijkstra_shortest_path graph start\<close> signals no error: it returns a mapping,
  and that mapping holds start with distance 0.
\<close>

theorem dijkstra_absent_start_returns:
  "s \<notin> set (graph_keys g) \<Longrightarrow>
     \<exists>r. dijkstra_shortest_path g s = Inr r \<and> r s = Some (Fin 0)"
  using dijkstra_absent_start [of s g] by simp

theorem dijkstra_absent_start_returns_witness:
  "''Z'' \<notin> set (graph_keys [(''A'', [(''B'', 1 :: int)]), (''B'', [])]) \<and>
   (\<exists>r. dijkstra_shortest_path [(''A'', [(''B'', 1)]), (''B'', [])] ''Z'' = Inr r
      \<and> r ''Z'' = Some (Fin 0))"
proof -
  have h: "''Z'' \<notin> set (graph_keys [(''A'', [(''B'', 1 :: int)]), (''B'', [])])" by simp
  from dijkstra_absent_start_returns [OF h] h show ?thesis by (intro conjI)
qed

text \<open>
  C9. For every graph and every start node that is not a key of the graph,
  \<open>dijkstra_shortest_path graph start\<close> returns normally: the result is the initial
  table with start added, so its keys are the graph's keys and start, start maps to 0 and
  every node of the graph maps to positive infinity. When the graph has a node, the node
  selected first already has infinite distance, which ends the loop in its first
  iteration.
\<close>

theorem dijkstra_absent_start_result:
  "s \<notin> set (graph_keys g) \<Longrightarrow>
     (\<exists>r. dijkstra_shortest_path g s = Inr r
        \<and> dom r = insert s (set (graph_keys g))
        \<and> r s = Some (Fin 0)
        \<and> (\<forall>v \<in> set (graph_keys g). r v = Some PInf)
        \<and> (g \<noteq> [] \<longrightarrow>
             (\<exists>c. min_by_distance r (remdups (graph_keys g)) = Inr c \<and> r c = Some PInf)))"
proof -
  assume s: "s \<notin> set (graph_keys g)"
  define r where "r = (map_of (map (\<lambda>node. (node, PInf)) (graph_keys g)))(s \<mapsto> Fin 0)"
  have look: "r v = (if v = s then Some (Fin 0) else if v \<in> set (graph_keys g) then Some PInf else None)"
    for v unfolding r_def by (rule init_distances_lookup)
  have r1: "dijkstra_shortest_path g s = Inr r"
    unfolding r_def using s by (rule dijkstra_absent_start)
  have r2: "dom r = insert s (set (graph_keys g))"
    unfolding dom_def by (auto simp only: look split: if_splits)
  have r3: "r s = Some (Fin 0)" by (simp add: look)
  have r4: "\<forall>v \<in> set (graph_keys g). r v = Some PInf"
    using s by (auto simp: look)
  have r5: "\<exists>c. min_by_distance r (remdups (graph_keys g)) = Inr c \<and> r c = Some PInf"
    if "g \<noteq> []"
  proof -
    from that have ne: "remdups (graph_keys g) \<noteq> []" by simp
    have "set (remdups (graph_keys g)) \<subseteq> dom r" using r2 by auto
    from min_by_distance_correct [OF ne this]
    obtain c where c: "min_by_distance r (remdups (graph_keys g)) = Inr c"
      "c \<in> set (remdups (graph_keys g))" by blast
    from c(2) have "c \<in> set (graph_keys g)" by simp
    with r4 have "r c = Some PInf" by blast
    with c(1) show ?thesis by blast
  qed
  from r1 r2 r3 r4 r5 show ?thesis by blast
qed

theorem dijkstra_absent_start_result_witness:
  "''Z'' \<notin> set (graph_keys example_graph) \<and>
   (\<exists>r. dijkstra_shortest_path example_graph ''Z'' = Inr r
      \<and> dom r = insert ''Z'' (set (graph_keys example_graph))
      \<and> r ''Z'' = Some (Fin 0)
      \<and> (\<forall>v \<in> set (graph_keys example_graph). r v = Some PInf)
      \<and> (example_graph \<noteq> [] \<longrightarrow>
           (\<exists>c. min_by_distance r (remdups (graph_keys example_graph)) = Inr c
              \<and> r c = Some PInf)))"
proof -
  have h: "''Z'' \<notin> set (graph_keys example_graph)" by (simp add: example_graph_def)
  from dijkstra_absent_start_result [OF h] h show ?thesis by (intro conjI)
qed

subsection \<open>Binary search\<close>

text \<open>
  C2. For every sequence sorted in ascending order and every target: if the target occurs
  in the sequence, \<open>binary_search arr target\<close> returns an index \<open>j\<close> of the sequence with
  \<open>arr[j] = target\<close>; if it does not occur, \<open>binary_search arr target\<close> returns the
  sentinel \<open>-1\<close>; no error is signalled in either case. On \<open>[1,3,5,7,9]\<close>, target 7
  gives index 3 and target 4 gives \<open>-1\<close>.
\<close>

theorem binary_search_correct:
  "(sorted arr \<longrightarrow>
      (target \<in> set arr \<longrightarrow>
         (\<exists>j. binary_search arr target = Inr j \<and> 0 \<le> j \<and> j < int (length arr)
            \<and> arr ! nat j = target)) \<and>
      (target \<notin> set arr \<longrightarrow> binary_search arr target = Inr (- 1)))
   \<and> binary_search [1, 3, 5, 7, 9 :: int] 7 = Inr 3
   \<and> binary_search [1, 3, 5, 7, 9 :: int] 4 = Inr (- 1)"
proof (intro conjI impI)
  assume "sorted arr" and "target \<in> set arr"
  from binary_search_loop_present [OF \<open>sorted arr\<close> _ _ in_set_int_index [OF \<open>target \<in> set arr\<close>]]
  obtain j where "binary_search_loop arr target 0 (int (length arr) - 1) = Inr j"
    "0 \<le> j" "j \<le> int (length arr) - 1" "arr ! nat j = target" by auto
  then show "\<exists>j. binary_search arr target = Inr j \<and> 0 \<le> j \<and> j < int (length arr)
            \<and> arr ! nat j = target"
    by (intro exI [of _ j]) (simp add: binary_search_def)
next
  assume "target \<notin> set arr"
  have "\<forall>k. 0 \<le> k \<and> k \<le> int (length arr) - 1 \<longrightarrow> arr ! nat k \<noteq> target"
  proof (intro allI impI)
    fix k :: int
    assume "0 \<le> k \<and> k \<le> int (length arr) - 1"
    then have "nat k < length arr" by linarith
    then have "arr ! nat k \<in> set arr" by (rule nth_mem)
    with \<open>target \<notin> set arr\<close> show "arr ! nat k \<noteq> target" by auto
  qed
  from binary_search_loop_absent [OF _ _ this]
  show "binary_search arr target = Inr (- 1)" by (simp add: binary_search_def)
next
  show "binary_search [1, 3, 5, 7, 9 :: int] 7 = Inr 3"
    by (simp add: binary_search_def binary_search_loop.simps list_getitem_def)
next
  show "binary_search [1, 3, 5, 7, 9 :: int] 4 = Inr (- 1)"
    by (simp add: binary_search_def binary_search_loop.simps list_getitem_def)
qed

theorem binary_search_correct_witness:
  "sorted [1, 3, 5, 7, 9 :: int] \<and> 7 \<in> set [1, 3, 5, 7, 9 :: int] \<and>
   (\<exists>j. binary_search [1, 3, 5, 7, 9 :: int] 7 = Inr j \<and> 0 \<le> j
      \<and> j < int (length [1, 3, 5, 7, 9 :: int]) \<and> [1, 3, 5, 7, 9 :: int] ! nat j = 7) \<and>
   4 \<notin> set [1, 3, 5, 7, 9 :: int] \<and>
   binary_search [1, 3, 5, 7, 9 :: int] 4 = Inr (- 1)"
proof -
  have s: "sorted [1, 3, 5, 7, 9 :: int]" by simp
  have m: "7 \<in> set [1, 3, 5, 7, 9 :: int]" by simp
  have n: "4 \<notin> set [1, 3, 5, 7, 9 :: int]" by simp
  note t7 = binary_search_correct [of "[1, 3, 5, 7, 9 :: int]" 7, THEN conjunct1, rule_format, OF s]
  note t4 = binary_search_correct [of "[1, 3, 5, 7, 9 :: int]" 4, THEN conjunct1, rule_format, OF s]
  from t7 [THEN conjunct1, rule_format, OF m] t4 [THEN conjunct2, rule_format, OF n] s m n
  show ?thesis by (intro conjI)
qed

text \<open>
  C5. \<open>binary_search\<close>, with its two boundary early exits, returns exactly what the
  plain two-branch search returns (the one that always continues with \<open>left = mid + 1\<close>
  or \<open>right = mid - 1\<close>): where an early exit fires, the narrowed interval would be empty
  and the loop condition would end the plain search with \<open>-1\<close> as well. This holds for
  every sequence, so in particular for every sequence sorted in ascending order.
\<close>

theorem binary_search_early_exit_redundant:
  "binary_search arr target = binary_search_simple arr target"
  unfolding binary_search_def binary_search_simple_def
  by (rule binary_search_loop_simple) simp_all

subsection \<open>Merge sort\<close>

text \<open>
  C3. For every finite sequence whose elements are compared by a total order (more
  generally, by any total and transitive \<open>\<le>\<close>), \<open>merge_sort arr\<close> is a permutation of
  the input, with the same elements in the same multiplicities, and is in non-decreasing
  order.
\<close>

theorem merge_sort_sorts:
  "total_preorder le \<Longrightarrow>
     mset (merge_sort le arr) = mset arr \<and> sorted_wrt le (merge_sort le arr)"
  by (simp add: mset_merge_sort sorted_merge_sort)

theorem merge_sort_sorts_witness:
  "total_preorder ((\<le>) :: int \<Rightarrow> int \<Rightarrow> bool) \<and>
   mset (merge_sort (\<le>) [3, 1, 2, 1 :: int]) = mset [3, 1, 2, 1] \<and>
   sorted_wrt (\<le>) (merge_sort (\<le>) [3, 1, 2, 1 :: int])"
proof -
  have h: "total_preorder ((\<le>) :: int \<Rightarrow> int \<Rightarrow> bool)"
    unfolding total_preorder_def by auto
  from merge_sort_sorts [OF h, of "[3, 1, 2, 1]"] h show ?thesis by (intro conjI) simp_all
qed

text \<open>
  C7. \<open>merge_sort\<close> is stable: under a total and transitive \<open>\<le>\<close>, for every element
  \<open>x\<close>, the elements of the input that compare equal to \<open>x\<close> (each \<open>\<le>\<close> the other, while
  they may differ in what else they carry) occur in the output in the same relative order
  as in the input. The merge step takes from the left run when \<open>left[i] \<le> right[j]\<close>.
\<close>

theorem merge_sort_stable:
  "total_preorder le \<Longrightarrow>
     filter (\<lambda>y. le x y \<and> le y x) (merge_sort le arr) = filter (\<lambda>y. le x y \<and> le y x) arr"
  by (rule filter_merge_sort)

theorem merge_sort_stable_witness:
  "total_preorder (\<lambda>a b :: int \<times> string. fst a \<le> fst b) \<and>
   filter (\<lambda>y. fst (2 :: int, ''x'') \<le> fst y \<and> fst y \<le> fst (2 :: int, ''x''))
     (merge_sort (\<lambda>a b. fst a \<le> fst b) [(2, ''a''), (1, ''b''), (2, ''c''), (1, ''d'')])
     = [(2, ''a''), (2, ''c'')]"
proof -
  have h: "total_preorder (\<lambda>a b :: int \<times> string. fst a \<le> fst b)"
    unfolding total_preorder_def by auto
  from merge_sort_stable [OF h, of "(2, ''x'')" "[(2, ''a''), (1, ''b''), (2, ''c''), (1, ''d'')]"] h
  show ?thesis by simp
qed

text \<open>
  C8. \<open>merge_sort\<close> is idempotent: a sequence that is already in non-decreasing order,
  the empty sequence included, is returned unchanged; and under a total and transitive
  \<open>\<le>\<close>, \<open>merge_sort (merge_sort arr) = merge_sort arr\<close> for every sequence.
\<close>

theorem merge_sort_idempotent:
  "(sorted_wrt le arr \<longrightarrow> merge_sort le arr = arr)
   \<and> merge_sort le [] = []
   \<and> (total_preorder le \<longrightarrow> merge_sort le (merge_sort le arr) = merge_sort le arr)"
proof (intro conjI impI)
  assume "sorted_wrt le arr"
  then show "merge_sort le arr = arr" by (rule merge_sort_sorted_id)
next
  show "merge_sort le [] = []" by (simp add: merge_sort.simps)
next
  assume "total_preorder le"
  then have "sorted_wrt le (merge_sort le arr)" by (rule sorted_merge_sort)
  then show "merge_sort le (merge_sort le arr) = merge_sort le arr"
    by (rule merge_sort_sorted_id)
qed

theorem merge_sort_idempotent_witness:
  "sorted_wrt (\<le>) [1, 2, 2, 3 :: int] \<and>
   merge_sort (\<le>) [1, 2, 2, 3 :: int] = [1, 2, 2, 3] \<and>
   total_preorder ((\<le>) :: int \<Rightarrow> int \<Rightarrow> bool) \<and>
   merge_sort (\<le>) (merge_sort (\<le>) [3, 1, 2 :: int]) = merge_sort (\<le>) [3, 1, 2]"
proof -
  have s: "sorted_wrt (\<le>) [1, 2, 2, 3 :: int]" by simp
  have h: "total_preorder ((\<le>) :: int \<Rightarrow> int \<Rightarrow> bool)"
    unfolding total_preorder_def by auto
  from merge_sort_idempotent [of "(\<le>)" "[1, 2, 2, 3 :: int]", THEN conjunct1, rule_format, OF s]
    merge_sort_idempotent [of "(\<le>)" "[3, 1, 2 :: int]", THEN conjunct2, THEN conjunct2,
      rule_format, OF h] s h
  show ?thesis by (intro conjI)
qed

subsection \<open>Fibonacci\<close>

text \<open>
  C4. The claim that \<open>fibonacci_dynamic n\<close> equals the reference for every non-negative
  \<open>n\<close> does not hold of the code: the first descent is \<open>n\<close> frames deep, and past the
  interpreter's recursion limit the call raises \<open>RecursionError\<close>. With 997 frames left
  below the outer call of \<open>fib\<close> (the default limit, called from the top level of a
  module), \<open>fibonacci_dynamic 999\<close> raises.
\<close>

theorem fibonacci_dynamic_overflow_counterexample:
  "fibonacci_dynamic 997 999 = Inl RecursionError"
  by (rule fibonacci_dynamic_overflow) simp

text \<open>
  C4, as the code has it. With \<open>room\<close> frames left below the outer call of \<open>fib\<close>: for
  every integer \<open>n\<close> with \<open>0 \<le> n \<le> room + 1\<close>, \<open>fibonacci_dynamic n\<close> returns the value of
  the naive recursive reference \<open>fib_spec\<close> (\<open>fib 0 = 0\<close>, \<open>fib 1 = 1\<close>,
  \<open>fib k = fib (k - 1) + fib (k - 2)\<close>); \<open>fibonacci_dynamic 0 = 0\<close> and
  \<open>fibonacci_dynamic 1 = 1\<close> whatever the room, and \<open>fibonacci_dynamic 10 = 55\<close> with room
  for 9 frames; for every \<open>n\<close> with \<open>2 \<le> n \<le> room + 1\<close>,
  \<open>fibonacci_dynamic n = fibonacci_dynamic (n - 1) + fibonacci_dynamic (n - 2)\<close>, all three
  calls returning normally; and for every \<open>n > room + 1\<close> the call raises
  \<open>RecursionError\<close>.
\<close>

theorem fibonacci_dynamic_correct:
  "(0 \<le> n \<and> n \<le> int room + 1 \<longrightarrow> fibonacci_dynamic room n = Inr (fib_spec (nat n)))
   \<and> fibonacci_dynamic room 0 = Inr 0
   \<and> fibonacci_dynamic room 1 = Inr 1
   \<and> (9 \<le> room \<longrightarrow> fibonacci_dynamic room 10 = Inr 55)
   \<and> (2 \<le> n \<and> n \<le> int room + 1 \<longrightarrow>
        (\<exists>a b. fibonacci_dynamic room (n - 1) = Inr a \<and> fibonacci_dynamic room (n - 2) = Inr b
           \<and> fibonacci_dynamic room n = Inr (a + b)))
   \<and> (int room + 1 < n \<longrightarrow> fibonacci_dynamic room n = Inl RecursionError)"
proof (intro conjI impI)
  assume "0 \<le> n \<and> n \<le> int room + 1"
  then show "fibonacci_dynamic room n = Inr (fib_spec (nat n))"
    by (simp add: fibonacci_dynamic_eq)
next
  show "fibonacci_dynamic room 0 = Inr 0"
    by (simp add: fibonacci_dynamic_def fib.simps)
next
  show "fibonacci_dynamic room 1 = Inr 1"
    by (simp add: fibonacci_dynamic_def fib.simps)
next
  assume "9 \<le> room"
  then have "fibonacci_dynamic room 10 = Inr (fib_spec (nat 10))"
    by (intro fibonacci_dynamic_eq) simp_all
  then show "fibonacci_dynamic room 10 = Inr 55" by (simp only: fib_spec_10)
next
  assume n: "2 \<le> n \<and> n \<le> int room + 1"
  then have "fibonacci_dynamic room (n - 1) = Inr (fib_spec (nat (n - 1)))"
    "fibonacci_dynamic room (n - 2) = Inr (fib_spec (nat (n - 2)))"
    "fibonacci_dynamic room n = Inr (fib_spec (nat n))"
    by (simp_all add: fibonacci_dynamic_eq)
  moreover from n have "fib_spec (nat n) = fib_spec (nat (n - 1)) + fib_spec (nat (n - 2))"
    by (intro fib_spec_int_rec) simp
  ultimately show "\<exists>a b. fibonacci_dynamic room (n - 1) = Inr a \<and> fibonacci_dynamic room (n - 2) = Inr b
           \<and> fibonacci_dynamic room n = Inr (a + b)"
    by simp
next
  assume "int room + 1 < n"
  then show "fibonacci_dynamic room n = Inl RecursionError"
    by (rule fibonacci_dynamic_overflow)
qed

theorem fibonacci_dynamic_correct_witness:
  "(0 :: int) \<le> 998 \<and> (998 :: int) \<le> int 997 + 1
   \<and> fibonacci_dynamic 997 998 = Inr (fib_spec (nat 998))
   \<and> (9 :: nat) \<le> 997 \<and> fibonacci_dynamic 997 10 = Inr 55
   \<and> (2 :: int) \<le> 998
   \<and> (\<exists>a b. fibonacci_dynamic 997 (998 - 1) = Inr a \<and> fibonacci_dynamic 997 (998 - 2) = Inr b
         \<and> fibonacci_dynamic 997 998 = Inr (a + b))
   \<and> int 997 + 1 < 1000 \<and> fibonacci_dynamic 997 1000 = Inl RecursionError"
proof -
  have h1: "(0 :: int) \<le> 998 \<and> (998 :: int) \<le> int 997 + 1" by simp
  have h2: "(9 :: nat) \<le> 997" by simp
  have h3: "(2 :: int) \<le> 998 \<and> (998 :: int) \<le> int 997 + 1" by simp
  have h4: "int 997 + 1 < 1000" by simp
  note t = fibonacci_dynamic_correct [of 998 997]
  note u = fibonacci_dynamic_correct [of 1000 997]
  from t [THEN conjunct1, rule_format, OF h1]
    t [THEN conjunct2, THEN conjunct2, THEN conjunct2, THEN conjunct1, rule_format, OF h2]
    t [THEN conjunct2, THEN conjunct2, THEN conjunct2, THEN conjunct2, THEN conjunct1,
      rule_format, OF h3]
    u [THEN conjunct2, THEN conjunct2, THEN conjunct2, THEN conjunct2, THEN conjunct2,
      rule_format, OF h4]
    h1 h2 h3 h4
  show ?thesis by (intro conjI) simp_all
qed

text \<open>
  C10. For every integer \<open>n \<le> 1\<close>, every negative \<open>n\<close> included, \<open>fibonacci_dynamic n\<close>
  terminates without error and returns \<open>n\<close> itself: the memo table is empty and the base
  case returns its argument without a recursive call, so this holds whatever stack is
  left. A negative input yields its own value, not an error.
\<close>

theorem fibonacci_dynamic_base_case:
  "n \<le> 1 \<Longrightarrow> fibonacci_dynamic room n = Inr n"
  by (simp add: fibonacci_dynamic_def fib.simps)

theorem fibonacci_dynamic_base_case_witness:
  "(- 5 :: int) \<le> 1 \<and> fibonacci_dynamic 0 (- 5) = Inr (- 5)"
proof -
  have h: "(- 5 :: int) \<le> 1" by simp
  from fibonacci_dynamic_base_case [OF h, of 0] h show ?thesis by (intro conjI)
qed

end
